theory Spec2Isabelle
  imports Main "HOL-Library.AList" "HOL-Library.Word"
begin

section \<open>Data model of \<open>src/main.py\<close>\<close>

text \<open>
  Python strings are modelled as \<open>string\<close>, read as the UTF-8 encoding of the text.
  Splitting at the ASCII full stop and comparing with ASCII literals give the same
  answers on the encoding as on the code points.  File contents are byte strings.
\<close>

type_synonym bytes = "8 word list"

datatype exn = KeyError | IndexError

text \<open>One value of the dictionary \<open>st.session_state["file_status"]\<close> (lines 238-246).\<close>

record file_entry =
  extension :: string
  encrypted :: bool
  decrypted :: bool
  excluded :: bool
  content :: "bytes option"
  file_bytes :: bytes
  error :: "string option"

text \<open>
  The keys of \<open>st.session_state\<close> initialised at lines 193-209.  The dictionary
  \<open>file_status\<close> keeps insertion order, so it is an association list: assigning
  to a key that is present replaces the value in place, assigning to a new key appends
  (\<open>AList.update\<close>); a lookup reads the first entry of the key (\<open>map_of\<close>).
\<close>

record session_state =
  file_status :: "(string \<times> file_entry) list"
  processing :: bool
  decrypted_files :: "string list"
  excluded_files :: "string list"
  error_message :: string
  password_input :: string

text \<open>
  The calls into PyPDF2 and msoffcrypto made inside the four \<open>try\<close> blocks.  Each
  either raises or returns; the helpers below catch the exception.
\<close>

datatype 'a outcome = Raised | Returned 'a

record library =
  PdfReader_is_encrypted :: "bytes \<Rightarrow> bool outcome"
  PdfReader_decrypt :: "bytes \<Rightarrow> string \<Rightarrow> int outcome"
  OfficeFile_is_encrypted :: "bytes \<Rightarrow> bool outcome"
  OfficeFile_decrypt :: "bytes \<Rightarrow> string \<Rightarrow> bytes outcome"

section \<open>Messages\<close>

text \<open>The message of line 121, in UTF-8.\<close>

definition msg_password_required :: string where
  "msg_password_required =
  [CHR 0xE3, CHR 0x83, CHR 0x91, CHR 0xE3, CHR 0x82, CHR 0xB9, CHR 0xE3, CHR 0x83,
   CHR 0xAF, CHR 0xE3, CHR 0x83, CHR 0xBC, CHR 0xE3, CHR 0x83, CHR 0x89, CHR 0xE3,
   CHR 0x82, CHR 0x92, CHR 0xE5, CHR 0x85, CHR 0xA5, CHR 0xE5, CHR 0x8A, CHR 0x9B,
   CHR 0xE3, CHR 0x81, CHR 0x97, CHR 0xE3, CHR 0x81, CHR 0xA6, CHR 0xE3, CHR 0x81,
   CHR 0x8F, CHR 0xE3, CHR 0x81, CHR 0xA0, CHR 0xE3, CHR 0x81, CHR 0x95, CHR 0xE3,
   CHR 0x81, CHR 0x84, CHR 0xE3, CHR 0x80, CHR 0x82]"

text \<open>The message of line 143, in UTF-8.\<close>

definition msg_incorrect_password :: string where
  "msg_incorrect_password =
  [CHR 0xE3, CHR 0x83, CHR 0x91, CHR 0xE3, CHR 0x82, CHR 0xB9, CHR 0xE3, CHR 0x83,
   CHR 0xAF, CHR 0xE3, CHR 0x83, CHR 0xBC, CHR 0xE3, CHR 0x83, CHR 0x89, CHR 0xE3,
   CHR 0x81, CHR 0x8C, CHR 0xE6, CHR 0xAD, CHR 0xA3, CHR 0xE3, CHR 0x81, CHR 0x97,
   CHR 0xE3, CHR 0x81, CHR 0x8F, CHR 0xE3, CHR 0x81, CHR 0x82, CHR 0xE3, CHR 0x82,
   CHR 0x8A, CHR 0xE3, CHR 0x81, CHR 0xBE, CHR 0xE3, CHR 0x81, CHR 0x9B, CHR 0xE3,
   CHR 0x82, CHR 0x93, CHR 0xE3, CHR 0x80, CHR 0x82, CHR 0xE5, CHR 0x86, CHR 0x8D,
   CHR 0xE5, CHR 0xBA, CHR 0xA6, CHR 0xE3, CHR 0x81, CHR 0x8A, CHR 0xE8, CHR 0xA9,
   CHR 0xA6, CHR 0xE3, CHR 0x81, CHR 0x97, CHR 0xE3, CHR 0x81, CHR 0x8F, CHR 0xE3,
   CHR 0x81, CHR 0xA0, CHR 0xE3, CHR 0x81, CHR 0x95, CHR 0xE3, CHR 0x81, CHR 0x84,
   CHR 0xE3, CHR 0x80, CHR 0x82]"

text \<open>The f-string of line 156, in UTF-8: a prefix, the file name, a suffix.\<close>

definition msg_cancelled :: "string \<Rightarrow> string" where
  "msg_cancelled current_file =
  [CHR 0xE3, CHR 0x83, CHR 0x95, CHR 0xE3, CHR 0x82, CHR 0xA1, CHR 0xE3, CHR 0x82,
   CHR 0xA4, CHR 0xE3, CHR 0x83, CHR 0xAB, CHR '' '', CHR 0x27]
  @ current_file @
  [CHR 0x27, CHR '' '', CHR 0xE3, CHR 0x81, CHR 0xAE, CHR 0xE5, CHR 0x87, CHR 0xA6,
   CHR 0xE7, CHR 0x90, CHR 0x86, CHR 0xE3, CHR 0x82, CHR 0x92, CHR 0xE3, CHR 0x82,
   CHR 0xAD, CHR 0xE3, CHR 0x83, CHR 0xA3, CHR 0xE3, CHR 0x83, CHR 0xB3, CHR 0xE3,
   CHR 0x82, CHR 0xBB, CHR 0xE3, CHR 0x83, CHR 0xAB, CHR 0xE3, CHR 0x81, CHR 0x97,
   CHR 0xE3, CHR 0x81, CHR 0xBE, CHR 0xE3, CHR 0x81, CHR 0x97, CHR 0xE3, CHR 0x81,
   CHR 0x9F, CHR 0xE3, CHR 0x80, CHR 0x82]"

section \<open>Helper functions (lines 12-103)\<close>

definition is_pdf_encrypted :: "library \<Rightarrow> bytes \<Rightarrow> bool" where
  "is_pdf_encrypted L fb =
     (case PdfReader_is_encrypted L fb of Returned r \<Rightarrow> r | Raised \<Rightarrow> False)"

text \<open>\<open>reader.decrypt\<close> returns 0 on failure and 1 or 2 on success (line 43).\<close>

definition decrypt_pdf :: "library \<Rightarrow> bytes \<Rightarrow> string \<Rightarrow> bool" where
  "decrypt_pdf L fb password =
     (case PdfReader_decrypt L fb password of Returned r \<Rightarrow> r \<noteq> 0 | Raised \<Rightarrow> False)"

definition is_office_encrypted :: "library \<Rightarrow> bytes \<Rightarrow> bool" where
  "is_office_encrypted L fb =
     (case OfficeFile_is_encrypted L fb of Returned r \<Rightarrow> r | Raised \<Rightarrow> False)"

definition decrypt_office :: "library \<Rightarrow> bytes \<Rightarrow> string \<Rightarrow> bytes option" where
  "decrypt_office L fb password =
     (case OfficeFile_decrypt L fb password of Returned d \<Rightarrow> Some d | Raised \<Rightarrow> None)"

text \<open>
  The condition of the comprehension at lines 96-98.  The name \<open>f\<close> ranges over the
  keys of the dictionary itself, so the lookup finds an entry (lemma
  \<open>map_of_key_present\<close> below); the other branch is never taken by
  \<open>get_current_file\<close>.
\<close>

definition is_pending :: "(string \<times> file_entry) list \<Rightarrow> string \<Rightarrow> bool" where
  "is_pending fs f =
     (case map_of fs f of
        None \<Rightarrow> False
      | Some r \<Rightarrow> encrypted r \<and> \<not> decrypted r \<and> \<not> excluded r)"

definition get_current_file :: "session_state \<Rightarrow> string option" where
  "get_current_file s =
     (let encrypted_files =
            filter (is_pending (file_status s)) (map fst (file_status s))
      in case encrypted_files of [] \<Rightarrow> None | f # _ \<Rightarrow> Some f)"

section \<open>Callbacks (lines 111-158)\<close>

text \<open>
  \<open>d[k][field] = v\<close>: look the inner dictionary up (KeyError when the key is absent)
  and change it in place.
\<close>

definition set_field ::
  "(string \<times> file_entry) list \<Rightarrow> string \<Rightarrow> (file_entry \<Rightarrow> file_entry)
     \<Rightarrow> exn + (string \<times> file_entry) list" where
  "set_field fs k upd =
     (case map_of fs k of
        None \<Rightarrow> Inl KeyError
      | Some r \<Rightarrow> Inr (AList.update k (upd r) fs))"

text \<open>
  \<open>if not current_file\<close> holds for \<open>None\<close> and for the empty string alike.
  \<open>st.success\<close> only draws and is left out.
\<close>

definition handle_submit :: "library \<Rightarrow> session_state \<Rightarrow> exn + session_state" where
  "handle_submit L s =
     (case get_current_file s of
        None \<Rightarrow> Inr s
      | Some current_file \<Rightarrow>
          if current_file = [] then Inr s
          else
            let password_attempt = password_input s in
            if password_attempt = [] then Inr (s\<lparr>error_message := msg_password_required\<rparr>)
            else
              (case map_of (file_status s) current_file of
                 None \<Rightarrow> Inl KeyError
               | Some entry \<Rightarrow>
                   let ext = extension entry; fb = file_bytes entry in
                   (case (if ext = ''pdf''
                          then Inr (decrypt_pdf L fb password_attempt, file_status s)
                          else (case decrypt_office L fb password_attempt of
                                  None \<Rightarrow> Inr (False, file_status s)
                                | Some decrypted_bytes \<Rightarrow>
                                    (case set_field (file_status s) current_file
                                            (\<lambda>r. r\<lparr>content := Some decrypted_bytes\<rparr>) of
                                       Inl e \<Rightarrow> Inl e
                                     | Inr fs1 \<Rightarrow> Inr (True, fs1)))) of
                      Inl e \<Rightarrow> Inl e
                    | Inr (success, fs1) \<Rightarrow>
                        if success then
                          (case set_field fs1 current_file (\<lambda>r. r\<lparr>decrypted := True\<rparr>) of
                             Inl e \<Rightarrow> Inl e
                           | Inr fs2 \<Rightarrow>
                               Inr (s\<lparr>file_status := fs2,
                                      decrypted_files := decrypted_files s @ [current_file],
                                      error_message := [],
                                      password_input := []\<rparr>))
                        else Inr (s\<lparr>file_status := fs1,
                                    error_message := msg_incorrect_password\<rparr>))))"

definition handle_cancel :: "session_state \<Rightarrow> exn + session_state" where
  "handle_cancel s =
     (case get_current_file s of
        None \<Rightarrow> Inr s
      | Some current_file \<Rightarrow>
          if current_file = [] then Inr s
          else
            (case set_field (file_status s) current_file (\<lambda>r. r\<lparr>excluded := True\<rparr>) of
               Inl e \<Rightarrow> Inl e
             | Inr fs1 \<Rightarrow>
                 Inr (s\<lparr>file_status := fs1,
                        excluded_files := excluded_files s @ [current_file],
                        error_message := msg_cancelled current_file,
                        password_input := []\<rparr>)))"

section \<open>The script body (lines 193-286)\<close>

text \<open>The session state after lines 193-209 on a fresh session.\<close>

definition initial_state :: session_state where
  "initial_state =
     \<lparr>file_status = [], processing = False, decrypted_files = [], excluded_files = [],
      error_message = [], password_input = []\<rparr>"

text \<open>\<open>str.split(sep)\<close> for a one-character separator.\<close>

fun split_str :: "char \<Rightarrow> string \<Rightarrow> string list" where
  "split_str sep [] = [[]]"
| "split_str sep (c # cs) =
     (if c = sep then [] # split_str sep cs
      else (case split_str sep cs of
              [] \<Rightarrow> [[c]]
            | w # ws \<Rightarrow> (c # w) # ws))"

text \<open>\<open>xs[-1]\<close>: IndexError on the empty list.\<close>

definition index_last :: "'a list \<Rightarrow> exn + 'a" where
  "index_last xs = (case xs of [] \<Rightarrow> Inl IndexError | _ # _ \<Rightarrow> Inr (last xs))"

text \<open>
  \<open>str.lower\<close> on the ASCII letters.  No character outside ASCII lower-cases to a letter
  of \<open>pdf\<close>, \<open>docx\<close>, \<open>xlsx\<close> or \<open>pptx\<close>, so the comparisons of lines 250-252
  are decided as in Python.
\<close>

definition lower_char :: "char \<Rightarrow> char" where
  "lower_char c =
     (let n = (of_char c :: nat) in if 65 \<le> n \<and> n \<le> 90 then char_of (n + 32) else c)"

definition lower :: "string \<Rightarrow> string" where
  "lower s = map lower_char s"

text \<open>The body of the loop at lines 236-262, for one uploaded file (name, bytes read).\<close>

definition ingest_file ::
  "library \<Rightarrow> string \<times> bytes \<Rightarrow> session_state \<Rightarrow> exn + session_state" where
  "ingest_file L file s =
     (let name = fst file; fb = snd file in
      case index_last (split_str CHR ''.'' name) of
        Inl e \<Rightarrow> Inl e
      | Inr suffix \<Rightarrow>
          let fs1 = AList.update name
                      \<lparr>extension = lower suffix, encrypted = False, decrypted = False,
                       excluded = False, content = None, file_bytes = fb, error = None\<rparr>
                      (file_status s)
          in (case map_of fs1 name of
                None \<Rightarrow> Inl KeyError
              | Some entry \<Rightarrow>
                  let ext = extension entry;
                      enc = (if ext = ''pdf'' then is_pdf_encrypted L fb
                             else if ext \<in> set [''docx'', ''xlsx'', ''pptx'']
                             then is_office_encrypted L fb
                             else False)
                  in (case set_field fs1 name (\<lambda>r. r\<lparr>encrypted := enc\<rparr>) of
                        Inl e \<Rightarrow> Inl e
                      | Inr fs2 \<Rightarrow>
                          if \<not> enc then
                            (case set_field fs2 name (\<lambda>r. r\<lparr>decrypted := True\<rparr>) of
                               Inl e \<Rightarrow> Inl e
                             | Inr fs3 \<Rightarrow>
                                 Inr (s\<lparr>file_status := fs3,
                                        decrypted_files := decrypted_files s @ [name]\<rparr>))
                          else Inr (s\<lparr>file_status := fs2\<rparr>))))"

fun ingest_loop ::
  "library \<Rightarrow> (string \<times> bytes) list \<Rightarrow> session_state \<Rightarrow> exn + session_state" where
  "ingest_loop L [] s = Inr s"
| "ingest_loop L (file # files) s =
     (case ingest_file L file s of
        Inl e \<Rightarrow> Inl e
      | Inr s1 \<Rightarrow> ingest_loop L files s1)"

text \<open>The six assignments of lines 228-233.\<close>

definition reset_session :: "session_state \<Rightarrow> session_state" where
  "reset_session s =
     s\<lparr>processing := True, file_status := [], decrypted_files := [],
       excluded_files := [], error_message := [], password_input := []\<rparr>"

text \<open>Lines 225-264, when the run button was pressed.  \<open>st.warning\<close> only draws.\<close>

definition run_button ::
  "library \<Rightarrow> (string \<times> bytes) list \<Rightarrow> session_state \<Rightarrow> exn + session_state" where
  "run_button L uploaded_files s =
     (if uploaded_files \<noteq> [] then ingest_loop L uploaded_files (reset_session s)
      else Inr s)"

text \<open>
  Lines 267-286: while processing, either the dialog is shown for the current file, or
  the run is closed and the two lists are written out.
\<close>

definition show_progress :: "session_state \<Rightarrow> session_state" where
  "show_progress s =
     (if processing s then
        (case get_current_file s of
           None \<Rightarrow> s\<lparr>processing := False\<rparr>
         | Some current_file \<Rightarrow>
             if current_file = [] then s\<lparr>processing := False\<rparr> else s)
      else s)"

section \<open>Runs of the application\<close>

text \<open>
  What can happen to the session: the run button with the uploaded files, the user typing
  into the password field (the widget with key \<open>password_input\<close>), the two dialog
  buttons, and a rerun of the script.
\<close>

datatype event =
  Run "(string \<times> bytes) list"
| Type string
| Submit
| Cancel
| Rerun

fun apply_event :: "library \<Rightarrow> event \<Rightarrow> session_state \<Rightarrow> exn + session_state" where
  "apply_event L (Run uploaded_files) s = run_button L uploaded_files s"
| "apply_event L (Type p) s = Inr (s\<lparr>password_input := p\<rparr>)"
| "apply_event L Submit s = handle_submit L s"
| "apply_event L Cancel s = handle_cancel s"
| "apply_event L Rerun s = Inr (show_progress s)"

fun exec :: "library \<Rightarrow> event list \<Rightarrow> session_state \<Rightarrow> exn + session_state" where
  "exec L [] s = Inr s"
| "exec L (e # es) s =
     (case apply_event L e s of
        Inl x \<Rightarrow> Inl x
      | Inr s1 \<Rightarrow> exec L es s1)"

text \<open>The states the application can be in: those a sequence of events leads to.\<close>

definition reachable :: "library \<Rightarrow> session_state \<Rightarrow> bool" where
  "reachable L s = (\<exists>es. exec L es initial_state = Inr s)"

text \<open>A run button press whose uploaded files have pairwise different names.\<close>

fun unique_names :: "event \<Rightarrow> bool" where
  "unique_names (Run uploaded_files) = distinct (map fst uploaded_files)"
| "unique_names _ = True"

fun is_Run :: "event \<Rightarrow> bool" where
  "is_Run (Run _) = True"
| "is_Run _ = False"

section \<open>Notions used in the statements\<close>

text \<open>
  The value of \<open>success\<close> that lines 127-131 compute for the entry of the current
  file and the password typed.
\<close>

definition password_succeeds :: "library \<Rightarrow> file_entry \<Rightarrow> string \<Rightarrow> bool" where
  "password_succeeds L entry password =
     (if extension entry = ''pdf'' then decrypt_pdf L (file_bytes entry) password
      else decrypt_office L (file_bytes entry) password \<noteq> None)"

text \<open>
  What line 239 stores as the extension, and the value of \<open>encrypted\<close> that lines
  250-256 compute, as functions of the uploaded file.
\<close>

definition extension_of :: "string \<Rightarrow> string" where
  "extension_of name = lower (last (split_str CHR ''.'' name))"

definition detect_encrypted :: "library \<Rightarrow> string \<Rightarrow> bytes \<Rightarrow> bool" where
  "detect_encrypted L name fb =
     (if extension_of name = ''pdf'' then is_pdf_encrypted L fb
      else if extension_of name \<in> set [''docx'', ''xlsx'', ''pptx'']
      then is_office_encrypted L fb
      else False)"

definition new_entry :: "library \<Rightarrow> string \<Rightarrow> bytes \<Rightarrow> file_entry" where
  "new_entry L name fb =
     \<lparr>extension = extension_of name, encrypted = detect_encrypted L name fb,
      decrypted = (\<not> detect_encrypted L name fb), excluded = False, content = None,
      file_bytes = fb, error = None\<rparr>"

text \<open>
  A resolved entry is one that is decrypted or excluded; \<open>resolved_names\<close> lists the
  keys of \<open>file_status\<close> whose entry is resolved, in the order of the dictionary.
\<close>

definition is_resolved :: "(string \<times> file_entry) list \<Rightarrow> string \<Rightarrow> bool" where
  "is_resolved fs f =
     (case map_of fs f of
        None \<Rightarrow> False
      | Some r \<Rightarrow> decrypted r \<or> excluded r)"

definition resolved_names :: "session_state \<Rightarrow> string list" where
  "resolved_names s = filter (is_resolved (file_status s)) (map fst (file_status s))"

text \<open>
  The two name lists agree with the flags of the entries, and no entry carries both
  flags.
\<close>

definition lists_match_entries :: "session_state \<Rightarrow> bool" where
  "lists_match_entries s =
     ((\<forall>f. f \<in> set (decrypted_files s) \<longleftrightarrow>
            (\<exists>r. map_of (file_status s) f = Some r \<and> decrypted r))
      \<and> (\<forall>f. f \<in> set (excluded_files s) \<longleftrightarrow>
            (\<exists>r. map_of (file_status s) f = Some r \<and> excluded r))
      \<and> (\<forall>f r. map_of (file_status s) f = Some r \<longrightarrow> \<not> (decrypted r \<and> excluded r)))"

section \<open>A concrete library and concrete sessions\<close>

text \<open>
  A stand-in for the two packages: a file is encrypted when its first byte is 1, reading
  an empty file raises, and the password of every encrypted file is \<open>x\<close>.
\<close>

definition example_library :: library where
  "example_library =
     \<lparr>PdfReader_is_encrypted =
        (\<lambda>fb. case fb of [] \<Rightarrow> Raised | b # _ \<Rightarrow> Returned (b = 1)),
      PdfReader_decrypt =
        (\<lambda>fb pw. case fb of [] \<Rightarrow> Raised
                   | _ # _ \<Rightarrow> Returned (if pw = ''x'' then 1 else 0)),
      OfficeFile_is_encrypted =
        (\<lambda>fb. case fb of [] \<Rightarrow> Raised | b # _ \<Rightarrow> Returned (b = 1)),
      OfficeFile_decrypt =
        (\<lambda>fb pw. if pw = ''x'' then Returned (tl fb) else Raised)\<rparr>"

text \<open>Three uploaded files: a plain PDF, an encrypted DOCX and an encrypted PDF.\<close>

definition example_batch :: "(string \<times> bytes) list" where
  "example_batch = [(''a.pdf'', [0]), (''b.DOCX'', [1, 2]), (''c.pdf'', [1])]"

text \<open>The session after the run button was pressed with these files.\<close>

definition example_awaiting :: session_state where
  "example_awaiting =
     \<lparr>file_status =
        [(''a.pdf'',
          \<lparr>extension = ''pdf'', encrypted = False, decrypted = True, excluded = False,
           content = None, file_bytes = [0], error = None\<rparr>),
         (''b.DOCX'',
          \<lparr>extension = ''docx'', encrypted = True, decrypted = False, excluded = False,
           content = None, file_bytes = [1, 2], error = None\<rparr>),
         (''c.pdf'',
          \<lparr>extension = ''pdf'', encrypted = True, decrypted = False, excluded = False,
           content = None, file_bytes = [1], error = None\<rparr>)],
      processing = True, decrypted_files = [''a.pdf''], excluded_files = [],
      error_message = [], password_input = []\<rparr>"

text \<open>The entry of the file the dialog then asks about.\<close>

definition example_b_entry :: file_entry where
  "example_b_entry =
     \<lparr>extension = ''docx'', encrypted = True, decrypted = False, excluded = False,
      content = None, file_bytes = [1, 2], error = None\<rparr>"

text \<open>The same session after the Cancel button.\<close>

definition example_cancelled :: session_state where
  "example_cancelled =
     \<lparr>file_status =
        [(''a.pdf'',
          \<lparr>extension = ''pdf'', encrypted = False, decrypted = True, excluded = False,
           content = None, file_bytes = [0], error = None\<rparr>),
         (''b.DOCX'',
          \<lparr>extension = ''docx'', encrypted = True, decrypted = False, excluded = True,
           content = None, file_bytes = [1, 2], error = None\<rparr>),
         (''c.pdf'',
          \<lparr>extension = ''pdf'', encrypted = True, decrypted = False, excluded = False,
           content = None, file_bytes = [1], error = None\<rparr>)],
      processing = True, decrypted_files = [''a.pdf''], excluded_files = [''b.DOCX''],
      error_message = msg_cancelled ''b.DOCX'', password_input = []\<rparr>"

section \<open>Facts about the helper functions and the callbacks\<close>

lemma map_of_key_present: "f \<in> set (map fst fs) \<Longrightarrow> \<exists>r. map_of fs f = Some r"
  by (induction fs) auto

lemma get_current_file_None:
  "get_current_file s = None \<longleftrightarrow>
     (\<forall>f \<in> set (map fst (file_status s)). \<not> is_pending (file_status s) f)"
proof -
  let ?xs = "filter (is_pending (file_status s)) (map fst (file_status s))"
  have "(?xs = []) = (\<forall>f \<in> set (map fst (file_status s)). \<not> is_pending (file_status s) f)"
    by (simp only: filter_empty_conv)
  moreover have "(get_current_file s = None) = (?xs = [])"
    unfolding get_current_file_def Let_def by (cases ?xs) simp_all
  ultimately show ?thesis by simp
qed

lemma get_current_file_SomeD:
  assumes "get_current_file s = Some f"
  shows "f \<in> set (map fst (file_status s))" and "is_pending (file_status s) f"
proof -
  from assms have "\<exists>rest.
    filter (is_pending (file_status s)) (map fst (file_status s)) = f # rest"
    unfolding get_current_file_def Let_def
    by (cases "filter (is_pending (file_status s)) (map fst (file_status s))") simp_all
  then obtain rest where  "filter (is_pending (file_status s)) (map fst (file_status s)) = f # rest" by blast
  then have "f \<in> set (filter (is_pending (file_status s)) (map fst (file_status s)))"
    by simp
  then show "f \<in> set (map fst (file_status s))" and "is_pending (file_status s) f"
    by auto
qed

lemma current_entry:
  assumes "get_current_file s = Some f"
  obtains r where "map_of (file_status s) f = Some r" "encrypted r" "\<not> decrypted r" "\<not> excluded r"
  using get_current_file_SomeD(2)[OF assms]
  by (auto simp: is_pending_def split: option.splits)

lemma set_field_present:
  "map_of fs k = Some r \<Longrightarrow> set_field fs k upd = Inr (AList.update k (upd r) fs)"
  by (simp add: set_field_def)

lemma map_of_update_same: "map_of (AList.update k v fs) k = Some v"
  by (simp add: update_conv')

lemma split_str_nonempty: "split_str sep s \<noteq> []"
  by (induction s) (auto split: list.splits)

lemma index_last_split: "index_last (split_str sep s) = Inr (last (split_str sep s))"
  using split_str_nonempty[of sep s] by (cases "split_str sep s") (simp_all add: index_last_def)

lemma ingest_file_eq:
  "ingest_file L (name, fb) s =
     Inr (s\<lparr>file_status := AList.update name (new_entry L name fb) (file_status s),
            decrypted_files :=
              (if detect_encrypted L name fb then decrypted_files s
               else decrypted_files s @ [name])\<rparr>)"
  by (simp add: ingest_file_def index_last_split set_field_def update_conv' Let_def
        new_entry_def detect_encrypted_def extension_of_def update_last)

lemma handle_submit_failure:
  assumes "get_current_file s = Some f" "f \<noteq> []" "password_input s \<noteq> []"
    "map_of (file_status s) f = Some r" "\<not> password_succeeds L r (password_input s)"
  shows "handle_submit L s = Inr (s\<lparr>error_message := msg_incorrect_password\<rparr>)"
  using assms
  by (simp add: handle_submit_def Let_def password_succeeds_def split: if_splits)

lemma handle_submit_success:
  assumes "get_current_file s = Some f" "f \<noteq> []" "password_input s \<noteq> []"
    "map_of (file_status s) f = Some r" "password_succeeds L r (password_input s)"
  shows "handle_submit L s =
    Inr (s\<lparr>file_status :=
             AList.update f
               (r\<lparr>content := (if extension r = ''pdf'' then content r
                               else decrypt_office L (file_bytes r) (password_input s)),
                  decrypted := True\<rparr>) (file_status s),
           decrypted_files := decrypted_files s @ [f],
           error_message := [],
           password_input := []\<rparr>)"
  using assms
  by (auto simp add: handle_submit_def Let_def password_succeeds_def set_field_def update_conv' update_last
       split: if_splits option.splits)

lemma handle_cancel_eq:
  assumes "get_current_file s = Some f" "f \<noteq> []" "map_of (file_status s) f = Some r"
  shows "handle_cancel s =
    Inr (s\<lparr>file_status := AList.update f (r\<lparr>excluded := True\<rparr>) (file_status s),
           excluded_files := excluded_files s @ [f],
           error_message := msg_cancelled f,
           password_input := []\<rparr>)"
  using assms by (simp add: handle_cancel_def set_field_def)

lemma handle_submit_cases:
  obtains
    (idle) "get_current_file s = None \<or> get_current_file s = Some []"
           "handle_submit L s = Inr s"
  | (empty) f where "get_current_file s = Some f" "f \<noteq> []" "password_input s = []"
           "handle_submit L s = Inr (s\<lparr>error_message := msg_password_required\<rparr>)"
  | (wrong) f r where "get_current_file s = Some f" "f \<noteq> []" "password_input s \<noteq> []"
           "map_of (file_status s) f = Some r" "encrypted r" "\<not> decrypted r" "\<not> excluded r"
           "\<not> password_succeeds L r (password_input s)"
           "handle_submit L s = Inr (s\<lparr>error_message := msg_incorrect_password\<rparr>)"
  | (ok) f r where "get_current_file s = Some f" "f \<noteq> []" "password_input s \<noteq> []"
           "map_of (file_status s) f = Some r" "encrypted r" "\<not> decrypted r" "\<not> excluded r"
           "password_succeeds L r (password_input s)"
           "handle_submit L s =
              Inr (s\<lparr>file_status :=
                       AList.update f
                         (r\<lparr>content := (if extension r = ''pdf'' then content r
                                         else decrypt_office L (file_bytes r) (password_input s)),
                            decrypted := True\<rparr>) (file_status s),
                     decrypted_files := decrypted_files s @ [f],
                     error_message := [],
                     password_input := []\<rparr>)"
proof (cases "get_current_file s")
  case None
  then show ?thesis using idle by (simp add: handle_submit_def)
next
  case (Some f)
  show ?thesis
  proof (cases "f = []")
    case True
    with Some show ?thesis using idle by (simp add: handle_submit_def)
  next
    case nonempty: False
    show ?thesis
    proof (cases "password_input s = []")
      case True
      with Some nonempty show ?thesis using empty by (simp add: handle_submit_def)
    next
      case typed: False
      from Some obtain r where r: "map_of (file_status s) f = Some r"
        "encrypted r" "\<not> decrypted r" "\<not> excluded r"
        by (rule current_entry)
      show ?thesis
      proof (cases "password_succeeds L r (password_input s)")
        case True
        from handle_submit_success[OF Some nonempty typed r(1) True] 
        show ?thesis using ok Some nonempty typed r True by blast
      next
        case False
        from handle_submit_failure[OF Some nonempty typed r(1) False]
        show ?thesis using wrong Some nonempty typed r False by blast
      qed
    qed
  qed
qed

lemma handle_cancel_cases:
  obtains
    (idle) "get_current_file s = None \<or> get_current_file s = Some []"
           "handle_cancel s = Inr s"
  | (cancelled) f r where "get_current_file s = Some f" "f \<noteq> []"
           "map_of (file_status s) f = Some r" "encrypted r" "\<not> decrypted r" "\<not> excluded r"
           "handle_cancel s =
              Inr (s\<lparr>file_status := AList.update f (r\<lparr>excluded := True\<rparr>) (file_status s),
                     excluded_files := excluded_files s @ [f],
                     error_message := msg_cancelled f,
                     password_input := []\<rparr>)"
proof (cases "get_current_file s")
  case None
  then show ?thesis using idle by (simp add: handle_cancel_def)
next
  case (Some f)
  show ?thesis
  proof (cases "f = []")
    case True
    with Some show ?thesis using idle by (simp add: handle_cancel_def)
  next
    case nonempty: False
    from Some obtain r where r: "map_of (file_status s) f = Some r"
      "encrypted r" "\<not> decrypted r" "\<not> excluded r"
      by (rule current_entry)
    from handle_cancel_eq[OF Some nonempty r(1)]
    show ?thesis using cancelled Some nonempty r by blast
  qed
qed

lemma handle_submit_total: "\<exists>s'. handle_submit L s = Inr s'"
  by (rule handle_submit_cases[of s L]) blast+

lemma handle_cancel_total: "\<exists>s'. handle_cancel s = Inr s'"
  by (rule handle_cancel_cases[of s]) blast+

lemma ingest_loop_append:
  "ingest_loop L (xs @ ys) s =
     (case ingest_loop L xs s of Inl e \<Rightarrow> Inl e | Inr s1 \<Rightarrow> ingest_loop L ys s1)"
  by (induction xs arbitrary: s) (auto split: sum.splits)

lemma ingest_loop_total: "\<exists>s'. ingest_loop L files s = Inr s'"
proof (induction files arbitrary: s)
  case Nil
  show ?case by simp
next
  case (Cons u files)
  obtain name fb where u: "u = (name, fb)" by (cases u)
  show ?case using Cons[of "s\<lparr>file_status := AList.update name (new_entry L name fb) (file_status s),
            decrypted_files :=
              (if detect_encrypted L name fb then decrypted_files s
               else decrypted_files s @ [name])\<rparr>"]
    by (simp add: u ingest_file_eq)
qed

lemma run_button_total: "\<exists>s'. run_button L files s = Inr s'"
  by (simp add: run_button_def ingest_loop_total)

lemma apply_event_total: "\<exists>s'. apply_event L e s = Inr s'"
  by (cases e) (simp_all add: run_button_total handle_submit_total handle_cancel_total)

lemma exec_total: "\<exists>s'. exec L es s = Inr s'"
proof (induction es arbitrary: s)
  case Nil
  show ?case by simp
next
  case (Cons e es)
  obtain s1 where "apply_event L e s = Inr s1" using apply_event_total by blast
  with Cons[of s1] show ?case by simp
qed

lemma exec_append:
  "exec L (es @ es') s =
     (case exec L es s of Inl x \<Rightarrow> Inl x | Inr s1 \<Rightarrow> exec L es' s1)"
  by (induction es arbitrary: s) (auto split: sum.splits)

lemma exec_invariant:
  assumes step: "\<And>e s s'. P s \<Longrightarrow> Q e \<Longrightarrow> apply_event L e s = Inr s' \<Longrightarrow> P s'"
    and "P s" and "\<forall>e \<in> set es. Q e" and "exec L es s = Inr s'"
  shows "P s'"
  using assms(2-)
proof (induction es arbitrary: s)
  case Nil
  then show ?case by simp
next
  case (Cons e es)
  from Cons.prems(3) obtain s1 where s1: "apply_event L e s = Inr s1" "exec L es s1 = Inr s'"
    by (auto split: sum.splits)
  from step[OF Cons.prems(1) _ s1(1)] Cons.prems(2) have "P s1" by simp
  with Cons.IH[of s1] Cons.prems(2) s1(2) show ?case by simp
qed

section \<open>States of the application\<close>

lemma detect_encrypted_empty_name: "\<not> detect_encrypted L [] fb"
  by (simp add: detect_encrypted_def extension_of_def lower_def)

lemma is_pending_update:
  "is_pending (AList.update k v fs) g =
     (if g = k then encrypted v \<and> \<not> decrypted v \<and> \<not> excluded v else is_pending fs g)"
  by (simp add: is_pending_def update_conv')

lemma ingest_loop_empty_name:
  "\<not> is_pending (file_status s) [] \<Longrightarrow> ingest_loop L files s = Inr s'
     \<Longrightarrow> \<not> is_pending (file_status s') []"
proof (induction files arbitrary: s)
  case Nil
  then show ?case by simp
next
  case (Cons u files)
  obtain name fb where u: "u = (name, fb)" by (cases u)
  let ?s1 = "s\<lparr>file_status := AList.update name (new_entry L name fb) (file_status s),
            decrypted_files :=
              (if detect_encrypted L name fb then decrypted_files s
               else decrypted_files s @ [name])\<rparr>"
  have "\<not> is_pending (file_status ?s1) []"
    using Cons.prems(1)
    by (simp add: is_pending_update new_entry_def detect_encrypted_empty_name)
  moreover have "ingest_loop L files ?s1 = Inr s'"
    using Cons.prems(2) by (simp add: u ingest_file_eq)
  ultimately show ?case by (rule Cons.IH)
qed

lemma apply_event_empty_name:
  assumes "\<not> is_pending (file_status s) []" and "apply_event L e s = Inr s'"
  shows "\<not> is_pending (file_status s') []"
proof (cases e)
  case (Run files)
  show ?thesis
  proof (cases "files = []")
    case True
    with assms Run show ?thesis by (simp add: run_button_def)
  next
    case False
    have "\<not> is_pending (file_status (reset_session s)) []"
      by (simp add: reset_session_def is_pending_def)
    moreover from assms(2) Run False have "ingest_loop L files (reset_session s) = Inr s'"
      by (simp add: run_button_def)
    ultimately show ?thesis by (rule ingest_loop_empty_name)
  qed
next
  case (Type p)
  with assms show ?thesis by auto
next
  case Submit
  show ?thesis
    by (rule handle_submit_cases[of s L]) (use assms Submit in \<open>auto simp: is_pending_update\<close>)
next
  case Cancel
  show ?thesis
    by (rule handle_cancel_cases[of s]) (use assms Cancel in \<open>auto simp: is_pending_update\<close>)
next
  case Rerun
  with assms show ?thesis by (auto simp: show_progress_def split: option.splits if_splits)
qed

lemma reachable_empty_name:
  assumes "reachable L s"
  shows "\<not> is_pending (file_status s) []"
proof -
  from assms obtain es where es: "exec L es initial_state = Inr s"
    by (auto simp: reachable_def)
  have init: "\<not> is_pending (file_status initial_state) []"
    by (simp add: initial_state_def is_pending_def)
  show ?thesis
  proof (rule exec_invariant[where P = "\<lambda>s. \<not> is_pending (file_status s) []"
        and Q = "\<lambda>_. True" and L = L and es = es and s = initial_state])
    show "\<not> is_pending (file_status s') []"
      if "\<not> is_pending (file_status s) []" "apply_event L e s = Inr s'" for e s s'
      using that by (rule apply_event_empty_name)
  qed (use init es in simp_all)
qed

lemma reachable_current_nonempty:
  assumes "reachable L s" and "get_current_file s = Some f"
  shows "f \<noteq> []"
  using reachable_empty_name[OF assms(1)] get_current_file_SomeD(2)[OF assms(2)] by auto

lemma update_keys_present:
  "map_of fs k = Some r \<Longrightarrow> map fst (AList.update k v fs) = map fst fs"
  by (simp add: update_keys map_of_eq_None_iff[symmetric])

section \<open>The current file as the first pending entry\<close>

lemma first_of_filter:
  "(case filter P xs of [] \<Rightarrow> None | x # _ \<Rightarrow> Some x) = List.find P xs"
  by (induction xs) simp_all

lemma is_pending_entry:
  assumes "distinct (map fst fs)" and "(k, r) \<in> set fs"
  shows "is_pending fs k = (encrypted r \<and> \<not> decrypted r \<and> \<not> excluded r)"
  using map_of_is_SomeI[OF assms] by (simp add: is_pending_def)

lemma find_keys_entries:
  assumes "distinct (map fst fs)" and "set xs \<subseteq> set fs"
  shows "List.find (is_pending fs) (map fst xs) =
         map_option fst (List.find (\<lambda>e. encrypted (snd e) \<and> \<not> decrypted (snd e) \<and> \<not> excluded (snd e)) xs)"
  using assms(2)
proof (induction xs)
  case Nil
  show ?case by simp
next
  case (Cons e xs)
  obtain k r where e: "e = (k, r)" by (cases e)
  with Cons.prems have "(k, r) \<in> set fs" by simp
  from is_pending_entry[OF assms(1) this] Cons show ?case by (simp add: e)
qed

lemma get_current_file_find:
  assumes "distinct (map fst (file_status s))"
  shows "get_current_file s =
         map_option fst (List.find (\<lambda>e. encrypted (snd e) \<and> \<not> decrypted (snd e) \<and> \<not> excluded (snd e))
            (file_status s))"
  unfolding get_current_file_def Let_def first_of_filter
  by (rule find_keys_entries[OF assms]) simp

section \<open>The ingestion loop\<close>

lemma ingest_loop_Cons:
  "ingest_loop L ((name, fb) # files) s =
     ingest_loop L files
       (s\<lparr>file_status := AList.update name (new_entry L name fb) (file_status s),
          decrypted_files :=
            (if detect_encrypted L name fb then decrypted_files s
             else decrypted_files s @ [name])\<rparr>)"
  by (simp add: ingest_file_eq)

lemma ingest_loop_lookup_other:
  "ingest_loop L files s = Inr s' \<Longrightarrow> n \<notin> fst ` set files
     \<Longrightarrow> map_of (file_status s') n = map_of (file_status s) n"
proof (induction files arbitrary: s)
  case Nil
  then show ?case by simp
next
  case (Cons u files)
  obtain name fb where u: "u = (name, fb)" by (cases u)
  from Cons.prems have "n \<noteq> name" "n \<notin> fst ` set files" by (auto simp: u)
  with Cons.IH[OF Cons.prems(1)[unfolded u ingest_loop_Cons]] show ?case
    by (simp add: update_conv')
qed

lemma ingest_loop_decrypted_files:
  "ingest_loop L files s = Inr s' \<Longrightarrow>
     decrypted_files s' =
       decrypted_files s @ map fst (filter (\<lambda>u. \<not> detect_encrypted L (fst u) (snd u)) files)"
proof (induction files arbitrary: s)
  case Nil
  then show ?case by simp
next
  case (Cons u files)
  obtain name fb where u: "u = (name, fb)" by (cases u)
  from Cons.IH[OF Cons.prems(1)[unfolded u ingest_loop_Cons]] show ?case
    by (simp add: u)
qed

lemma ingest_loop_distinct_keys:
  "ingest_loop L files s = Inr s' \<Longrightarrow> distinct (map fst (file_status s))
     \<Longrightarrow> distinct (map fst (file_status s'))"
proof (induction files arbitrary: s)
  case Nil
  then show ?case by simp
next
  case (Cons u files)
  obtain name fb where u: "u = (name, fb)" by (cases u)
  show ?case
    by (rule Cons.IH[OF Cons.prems(1)[unfolded u ingest_loop_Cons]])
       (simp add: distinct_update Cons.prems(2))
qed

lemma ingest_loop_unencrypted:
  assumes "ingest_loop L files s = Inr s'"
    and "\<forall>n r. map_of (file_status s) n = Some r \<and> \<not> encrypted r
           \<longrightarrow> decrypted r \<and> n \<in> set (decrypted_files s)"
  shows "\<forall>n r. map_of (file_status s') n = Some r \<and> \<not> encrypted r
           \<longrightarrow> decrypted r \<and> n \<in> set (decrypted_files s')"
  using assms
proof (induction files arbitrary: s)
  case Nil
  then show ?case by simp
next
  case (Cons u files)
  obtain name fb where u: "u = (name, fb)" by (cases u)
  show ?case
    by (rule Cons.IH[OF Cons.prems(1)[unfolded u ingest_loop_Cons]])
       (use Cons.prems(2) in \<open>auto simp: update_conv' new_entry_def\<close>)
qed

lemma detect_encrypted_unsupported:
  "extension_of name \<notin> set [''pdf'', ''docx'', ''xlsx'', ''pptx''] \<Longrightarrow> \<not> detect_encrypted L name fb"
  by (simp add: detect_encrypted_def)

lemma detect_encrypted_pdf_raised:
  "extension_of name = ''pdf'' \<Longrightarrow> PdfReader_is_encrypted L fb = Raised
     \<Longrightarrow> \<not> detect_encrypted L name fb"
  by (simp add: detect_encrypted_def is_pdf_encrypted_def)

lemma detect_encrypted_office_raised:
  "extension_of name \<in> set [''docx'', ''xlsx'', ''pptx''] \<Longrightarrow> OfficeFile_is_encrypted L fb = Raised
     \<Longrightarrow> \<not> detect_encrypted L name fb"
  by (auto simp add: detect_encrypted_def is_office_encrypted_def)

lemma one_entry_per_key:
  "distinct (map fst fs) \<Longrightarrow> name \<in> fst ` set fs
     \<Longrightarrow> length (filter (\<lambda>e. fst e = name) fs) = 1"
proof (induction fs)
  case Nil
  then show ?case by simp
next
  case (Cons e fs)
  show ?case
  proof (cases "fst e = name")
    case True
    with Cons.prems(1) have "name \<notin> fst ` set fs" by auto
    then have "filter (\<lambda>e. fst e = name) fs = []" by (auto simp: filter_empty_conv)
    with True show ?thesis by simp
  next
    case False
    with Cons show ?thesis by auto
  qed
qed

lemma distinct_count_le_1: "distinct xs \<Longrightarrow> count_list xs x \<le> 1"
  by (induction xs) auto

lemma count_list_map_filter:
  "count_list (map fst (filter Q xs)) name = length (filter (\<lambda>u. fst u = name \<and> Q u) xs)"
  by (induction xs) auto

lemma filter_absent_name:
  "name \<notin> fst ` set xs \<Longrightarrow> filter (\<lambda>u. fst u = name \<and> Q u) xs = []"
  by (auto simp: filter_empty_conv)

lemma run_button_single:
  "run_button L [(name, fb)] s = Inr s1 \<Longrightarrow> map_of (file_status s1) name = Some (new_entry L name fb)"
  by (auto simp: run_button_def ingest_file_eq update_conv')

section \<open>The name lists and the flags of the entries\<close>

lemma lists_match_entries_reset: "lists_match_entries (reset_session s)"
  by (simp add: lists_match_entries_def reset_session_def)

lemma lists_match_entries_ingest:
  assumes "lists_match_entries s" and "map_of (file_status s) name = None"
  shows "lists_match_entries
           (s\<lparr>file_status := AList.update name (new_entry L name fb) (file_status s),
              decrypted_files :=
                (if detect_encrypted L name fb then decrypted_files s
                 else decrypted_files s @ [name])\<rparr>)"
proof -
  from assms have "name \<notin> set (decrypted_files s)" "name \<notin> set (excluded_files s)"
    by (auto simp: lists_match_entries_def)
  with assms(1) show ?thesis
    unfolding lists_match_entries_def
    by (auto simp: update_conv' new_entry_def)
qed

lemma ingest_loop_lists_match:
  assumes "ingest_loop L files s = Inr s'" and "lists_match_entries s"
    and "distinct (map fst files)" and "fst ` set files \<inter> fst ` set (file_status s) = {}"
  shows "lists_match_entries s'"
  using assms
proof (induction files arbitrary: s)
  case Nil
  then show ?case by simp
next
  case (Cons u files)
  obtain name fb where u: "u = (name, fb)" by (cases u)
  let ?s1 = "s\<lparr>file_status := AList.update name (new_entry L name fb) (file_status s),
              decrypted_files :=
                (if detect_encrypted L name fb then decrypted_files s
                 else decrypted_files s @ [name])\<rparr>"
  from Cons.prems(4) have "name \<notin> fst ` set (file_status s)" by (auto simp: u)
  then have fresh: "map_of (file_status s) name = None" by (simp add: map_of_eq_None_iff)
  have 1: "ingest_loop L files ?s1 = Inr s'"
    using Cons.prems(1) by (simp only: u ingest_loop_Cons)
  have 2: "lists_match_entries ?s1"
    by (rule lists_match_entries_ingest[OF Cons.prems(2) fresh])
  have 3: "distinct (map fst files)" using Cons.prems(3) by simp
  have 4: "fst ` set files \<inter> fst ` set (file_status ?s1) = {}"
    using Cons.prems(3,4) by (auto simp: u dom_update)
  show ?case by (rule Cons.IH[OF 1 2 3 4])
qed

lemma apply_event_lists_match:
  assumes "lists_match_entries s" and "unique_names e" and "apply_event L e s = Inr s'"
  shows "lists_match_entries s'"
proof (cases e)
  case (Run files)
  show ?thesis
  proof (cases "files = []")
    case True
    with assms Run show ?thesis by (simp add: run_button_def)
  next
    case False
    with assms(3) Run have "ingest_loop L files (reset_session s) = Inr s'"
      by (simp add: run_button_def)
    then show ?thesis
    proof (rule ingest_loop_lists_match)
      show "lists_match_entries (reset_session s)" by (rule lists_match_entries_reset)
      show "distinct (map fst files)" using assms(2) Run by simp
      show "fst ` set files \<inter> fst ` set (file_status (reset_session s)) = {}"
        by (simp add: reset_session_def)
    qed
  qed
next
  case (Type p)
  with assms show ?thesis by (auto simp: lists_match_entries_def)
next
  case Submit
  show ?thesis
  proof (rule handle_submit_cases[of s L])
    assume "handle_submit L s = Inr s"
    with assms Submit show ?thesis by simp
  next
    assume "handle_submit L s = Inr (s\<lparr>error_message := msg_password_required\<rparr>)"
    with assms Submit show ?thesis by (auto simp: lists_match_entries_def)
  next
    assume "handle_submit L s = Inr (s\<lparr>error_message := msg_incorrect_password\<rparr>)"
    with assms Submit show ?thesis by (auto simp: lists_match_entries_def)
  next
    fix f r
    assume r: "map_of (file_status s) f = Some r" "\<not> decrypted r" "\<not> excluded r"
      and eq: "handle_submit L s =
              Inr (s\<lparr>file_status :=
                       AList.update f
                         (r\<lparr>content := (if extension r = ''pdf'' then content r
                                         else decrypt_office L (file_bytes r) (password_input s)),
                            decrypted := True\<rparr>) (file_status s),
                     decrypted_files := decrypted_files s @ [f],
                     error_message := [],
                     password_input := []\<rparr>)"
    from assms(1) r have "f \<notin> set (decrypted_files s)" "f \<notin> set (excluded_files s)"
      by (auto simp: lists_match_entries_def)
    with assms(1) r have "lists_match_entries (s\<lparr>file_status :=
                       AList.update f
                         (r\<lparr>content := (if extension r = ''pdf'' then content r
                                         else decrypt_office L (file_bytes r) (password_input s)),
                            decrypted := True\<rparr>) (file_status s),
                     decrypted_files := decrypted_files s @ [f],
                     error_message := [],
                     password_input := []\<rparr>)"
      unfolding lists_match_entries_def by (auto simp: update_conv')
    with eq assms(3) Submit show ?thesis by simp
  qed
next
  case Cancel
  show ?thesis
  proof (rule handle_cancel_cases[of s])
    assume "handle_cancel s = Inr s"
    with assms Cancel show ?thesis by simp
  next
    fix f r
    assume r: "map_of (file_status s) f = Some r" "\<not> decrypted r" "\<not> excluded r"
      and eq: "handle_cancel s =
              Inr (s\<lparr>file_status := AList.update f (r\<lparr>excluded := True\<rparr>) (file_status s),
                     excluded_files := excluded_files s @ [f],
                     error_message := msg_cancelled f,
                     password_input := []\<rparr>)"
    from assms(1) r have "f \<notin> set (decrypted_files s)" "f \<notin> set (excluded_files s)"
      by (auto simp: lists_match_entries_def)
    with assms(1) r have "lists_match_entries
        (s\<lparr>file_status := AList.update f (r\<lparr>excluded := True\<rparr>) (file_status s),
                     excluded_files := excluded_files s @ [f],
                     error_message := msg_cancelled f,
                     password_input := []\<rparr>)"
      unfolding lists_match_entries_def by (auto simp: update_conv')
    with eq assms(3) Cancel show ?thesis by simp
  qed
next
  case Rerun
  with assms show ?thesis
    by (auto simp: show_progress_def lists_match_entries_def split: option.splits if_splits)
qed

lemma apply_event_lists_grow:
  assumes "\<not> is_Run e" and "apply_event L e s = Inr s'"
  shows "\<exists>ds xs. decrypted_files s' = decrypted_files s @ ds
           \<and> excluded_files s' = excluded_files s @ xs"
proof (cases e)
  case (Run files)
  with assms show ?thesis by simp
next
  case (Type p)
  with assms show ?thesis by auto
next
  case Submit
  show ?thesis
    by (rule handle_submit_cases[of s L]) (use assms Submit in auto)
next
  case Cancel
  show ?thesis
    by (rule handle_cancel_cases[of s]) (use assms Cancel in auto)
next
  case Rerun
  with assms show ?thesis by (auto simp: show_progress_def split: option.splits if_splits)
qed

lemma exec_lists_grow:
  assumes "\<forall>e \<in> set es. \<not> is_Run e" and "exec L es s = Inr s'"
  shows "\<exists>ds xs. decrypted_files s' = decrypted_files s @ ds
           \<and> excluded_files s' = excluded_files s @ xs"
  using assms
proof (induction es arbitrary: s)
  case Nil
  then show ?case by simp
next
  case (Cons e es)
  from Cons.prems(2) obtain s1 where s1: "apply_event L e s = Inr s1" "exec L es s1 = Inr s'"
    by (auto split: sum.splits)
  from apply_event_lists_grow[OF _ s1(1)] Cons.prems(1)
  obtain ds xs where 1: "decrypted_files s1 = decrypted_files s @ ds"
    "excluded_files s1 = excluded_files s @ xs" by auto
  from Cons.IH[OF _ s1(2)] Cons.prems(1)
  obtain ds' xs' where 2: "decrypted_files s' = decrypted_files s1 @ ds'"
    "excluded_files s' = excluded_files s1 @ xs'" by auto
  from 1 2 show ?case by simp
qed

lemma set_resolved_names:
  "set (resolved_names s) =
     {f. \<exists>r. map_of (file_status s) f = Some r \<and> (decrypted r \<or> excluded r)}"
proof -
  have "f \<in> fst ` set (file_status s)" if "map_of (file_status s) f = Some r" for f r
    using that by (metis map_of_eq_None_iff option.distinct(1))
  then show ?thesis
    by (auto simp: resolved_names_def is_resolved_def split: option.splits)
qed

lemma lists_match_entries_partition:
  assumes "lists_match_entries s"
  shows "set (decrypted_files s) \<union> set (excluded_files s) = set (resolved_names s)"
    and "set (decrypted_files s) \<inter> set (excluded_files s) = {}"
proof -
  show "set (decrypted_files s) \<union> set (excluded_files s) = set (resolved_names s)"
    unfolding set_resolved_names using assms by (auto simp: lists_match_entries_def)
  show "set (decrypted_files s) \<inter> set (excluded_files s) = {}"
    using assms by (fastforce simp: lists_match_entries_def)
qed

section \<open>The concrete session\<close>

lemma example_awaiting_exec:
  "exec example_library [Run example_batch] initial_state = Inr example_awaiting"
  by code_simp

lemma example_awaiting_reachable: "reachable example_library example_awaiting"
  unfolding reachable_def using example_awaiting_exec by (rule exI)

lemma example_typed_reachable:
  "reachable example_library (example_awaiting\<lparr>password_input := p\<rparr>)"
proof -
  have "exec example_library ([Run example_batch] @ [Type p]) initial_state
          = Inr (example_awaiting\<lparr>password_input := p\<rparr>)"
    by (simp only: exec_append example_awaiting_exec) simp
  then show ?thesis unfolding reachable_def by (rule exI)
qed

lemma example_awaiting_current: "get_current_file (example_awaiting\<lparr>password_input := p\<rparr>) = Some ''b.DOCX''"
  by (simp add: get_current_file_def example_awaiting_def is_pending_def)

lemma example_awaiting_entry:
  "map_of (file_status (example_awaiting\<lparr>password_input := p\<rparr>)) ''b.DOCX'' = Some example_b_entry"
  by (simp add: example_awaiting_def example_b_entry_def)

lemma example_password_x: "password_succeeds example_library example_b_entry ''x''"
  by (simp add: password_succeeds_def example_library_def example_b_entry_def decrypt_office_def)

lemma example_password_y: "\<not> password_succeeds example_library example_b_entry ''y''"
  by (simp add: password_succeeds_def example_library_def example_b_entry_def decrypt_office_def)

lemma example_empty_pdf_extension: "extension_of ''empty.pdf'' = ''pdf''"
  by code_simp

section \<open>The claims about the two callbacks\<close>

text \<open>
  Claim C9.  In a state where \<open>get_current_file\<close> returns \<open>None\<close>, both
  \<open>handle_submit\<close> and \<open>handle_cancel\<close> return at once and hand back the session state
  as it was: no entry, no list, neither the error message nor the password field changes.
\<close>

theorem handlers_idle_without_pending:
  assumes "get_current_file s = None"
  shows "handle_submit L s = Inr s \<and> handle_cancel s = Inr s"
  using assms by (simp add: handle_submit_def handle_cancel_def)

text \<open>The statement at the fresh session.\<close>

theorem handlers_idle_without_pending_witness:
  "get_current_file initial_state = None
   \<and> handle_submit example_library initial_state = Inr initial_state
   \<and> handle_cancel initial_state = Inr initial_state"
proof -
  have h: "get_current_file initial_state = None"
    by (simp add: get_current_file_def initial_state_def)
  from handlers_idle_without_pending[OF h, of example_library] h show ?thesis by simp
qed

text \<open>
  Claim C6.  In a state of the application with a pending file, submitting while the
  password field is empty changes nothing but the error message, which becomes the
  (non-empty) text asking for a password.  The result is the same for every library
  \<open>L'\<close>: no decryption primitive takes part in it.
\<close>

theorem empty_password_rejected:
  assumes "reachable L s" and "get_current_file s = Some f" and "password_input s = []"
  shows "handle_submit L' s = Inr (s\<lparr>error_message := msg_password_required\<rparr>)
         \<and> msg_password_required \<noteq> []"
  using assms reachable_current_nonempty[OF assms(1,2)]
  by (simp add: handle_submit_def msg_password_required_def)

text \<open>The statement at a concrete session.\<close>

theorem empty_password_rejected_witness:
  "reachable example_library example_awaiting
   \<and> get_current_file example_awaiting = Some ''b.DOCX''
   \<and> password_input example_awaiting = []
   \<and> handle_submit example_library example_awaiting
        = Inr (example_awaiting\<lparr>error_message := msg_password_required\<rparr>)
   \<and> msg_password_required \<noteq> []"
proof -
  have c: "get_current_file example_awaiting = Some ''b.DOCX''"
    using example_awaiting_current[of "[]"] by (simp add: example_awaiting_def)
  have p: "password_input example_awaiting = []" by (simp add: example_awaiting_def)
  from empty_password_rejected[OF example_awaiting_reachable c p, of example_library]
  show ?thesis using example_awaiting_reachable c p by simp
qed

text \<open>
  Claim C4.  In a state of the application with a pending file, submitting a non-empty
  password that does not decrypt the current file changes only the error message, which
  becomes the incorrect-password text: every entry and both name lists stay as they were,
  and the same file is still the current one.
\<close>

theorem wrong_password_keeps_file:
  assumes "reachable L s" and "get_current_file s = Some f" and "password_input s \<noteq> []"
    and "map_of (file_status s) f = Some r"
    and "\<not> password_succeeds L r (password_input s)"
  shows "handle_submit L s = Inr (s\<lparr>error_message := msg_incorrect_password\<rparr>)
         \<and> get_current_file (s\<lparr>error_message := msg_incorrect_password\<rparr>) = Some f
         \<and> msg_incorrect_password \<noteq> []"
  using handle_submit_failure[OF assms(2) reachable_current_nonempty[OF assms(1,2)] assms(3,4,5)]
    assms(2)
  by (simp add: get_current_file_def msg_incorrect_password_def)

text \<open>The statement at a concrete session.\<close>

theorem wrong_password_keeps_file_witness:
  "reachable example_library (example_awaiting\<lparr>password_input := ''y''\<rparr>)
   \<and> get_current_file (example_awaiting\<lparr>password_input := ''y''\<rparr>) = Some ''b.DOCX''
   \<and> password_input (example_awaiting\<lparr>password_input := ''y''\<rparr>) \<noteq> []
   \<and> map_of (file_status (example_awaiting\<lparr>password_input := ''y''\<rparr>)) ''b.DOCX''
        = Some example_b_entry
   \<and> \<not> password_succeeds example_library example_b_entry ''y''
   \<and> handle_submit example_library (example_awaiting\<lparr>password_input := ''y''\<rparr>)
        = Inr (example_awaiting\<lparr>password_input := ''y'',
                                  error_message := msg_incorrect_password\<rparr>)
   \<and> get_current_file (example_awaiting\<lparr>password_input := ''y'',
                                  error_message := msg_incorrect_password\<rparr>) = Some ''b.DOCX''"
proof -
  let ?s = "example_awaiting\<lparr>password_input := ''y''\<rparr>"
  have p: "password_input ?s \<noteq> []" by simp
  have q: "\<not> password_succeeds example_library example_b_entry (password_input ?s)"
    using example_password_y by simp
  from wrong_password_keeps_file[OF example_typed_reachable example_awaiting_current p
      example_awaiting_entry q]
  show ?thesis
    using example_typed_reachable example_awaiting_current example_awaiting_entry
      example_password_y by simp
qed

text \<open>
  Claim C3.  In a state of the application with a pending file, submitting a non-empty
  password that decrypts the current file sets the \<open>decrypted\<close> flag of that entry (and
  stores the decrypted bytes as \<open>content\<close> for an office file), appends that name once to
  \<open>decrypted_files\<close>, empties the error message and the password field, and leaves the
  order of the keys, every other entry and \<open>excluded_files\<close> as they were.
\<close>

theorem correct_password_decrypts_current:
  assumes "reachable L s" and "get_current_file s = Some f" and "password_input s \<noteq> []"
    and "map_of (file_status s) f = Some r"
    and "password_succeeds L r (password_input s)"
  shows "\<exists>s'. handle_submit L s = Inr s'
           \<and> map fst (file_status s') = map fst (file_status s)
           \<and> map_of (file_status s') f =
               Some (r\<lparr>content := (if extension r = ''pdf'' then content r
                                   else decrypt_office L (file_bytes r) (password_input s)),
                      decrypted := True\<rparr>)
           \<and> (\<forall>g. g \<noteq> f \<longrightarrow> map_of (file_status s') g = map_of (file_status s) g)
           \<and> decrypted_files s' = decrypted_files s @ [f]
           \<and> excluded_files s' = excluded_files s
           \<and> error_message s' = [] \<and> password_input s' = []
           \<and> processing s' = processing s"
  using handle_submit_success[OF assms(2) reachable_current_nonempty[OF assms(1,2)] assms(3,4,5)]
    update_keys_present[OF assms(4)]
  by (simp add: update_conv')

text \<open>The statement at a concrete session.\<close>

theorem correct_password_decrypts_current_witness:
  "reachable example_library (example_awaiting\<lparr>password_input := ''x''\<rparr>)
   \<and> get_current_file (example_awaiting\<lparr>password_input := ''x''\<rparr>) = Some ''b.DOCX''
   \<and> password_input (example_awaiting\<lparr>password_input := ''x''\<rparr>) \<noteq> []
   \<and> map_of (file_status (example_awaiting\<lparr>password_input := ''x''\<rparr>)) ''b.DOCX''
        = Some example_b_entry
   \<and> password_succeeds example_library example_b_entry ''x''
   \<and> (\<exists>s'. handle_submit example_library (example_awaiting\<lparr>password_input := ''x''\<rparr>) = Inr s'
          \<and> map_of (file_status s') ''b.DOCX''
               = Some (example_b_entry\<lparr>content := Some [2], decrypted := True\<rparr>)
          \<and> decrypted_files s' = [''a.pdf'', ''b.DOCX'']
          \<and> error_message s' = [] \<and> password_input s' = [])"
proof -
  let ?s = "example_awaiting\<lparr>password_input := ''x''\<rparr>"
  have p: "password_input ?s \<noteq> []" by simp
  have q: "password_succeeds example_library example_b_entry (password_input ?s)"
    using example_password_x by simp
  have d: "decrypt_office example_library (file_bytes example_b_entry) ''x'' = Some [2]"
    by (simp add: decrypt_office_def example_library_def example_b_entry_def)
  have e: "extension example_b_entry \<noteq> ''pdf''" by (simp add: example_b_entry_def)
  have f: "decrypted_files example_awaiting = [''a.pdf'']" by (simp add: example_awaiting_def)
  from correct_password_decrypts_current[OF example_typed_reachable example_awaiting_current p
      example_awaiting_entry q]
  obtain s' where s': "handle_submit example_library ?s = Inr s'"
      "map_of (file_status s') ''b.DOCX'' =
               Some (example_b_entry\<lparr>content := (if extension example_b_entry = ''pdf'' then content example_b_entry
                                   else decrypt_office example_library (file_bytes example_b_entry) (password_input ?s)),
                      decrypted := True\<rparr>)"
      "decrypted_files s' = decrypted_files ?s @ [''b.DOCX'']"
      "error_message s' = []" "password_input s' = []"
    by blast
  from s'(2) d e have "map_of (file_status s') ''b.DOCX''
               = Some (example_b_entry\<lparr>content := Some [2], decrypted := True\<rparr>)" by simp
  moreover from s'(3) f have "decrypted_files s' = [''a.pdf'', ''b.DOCX'']" by simp
  ultimately show ?thesis
    using s'(1,4,5) example_typed_reachable example_awaiting_current example_awaiting_entry
      example_password_x by simp
qed

text \<open>
  Claim C5.  In a state of the application with a pending file, \<open>handle_cancel\<close> sets
  the \<open>excluded\<close> flag of the current entry and nothing else in it, appends that name once
  to \<open>excluded_files\<close>, empties the password field, and leaves the order of the keys, every
  other entry and \<open>decrypted_files\<close> as they were.
\<close>

theorem cancel_excludes_current:
  assumes "reachable L s" and "get_current_file s = Some f"
    and "map_of (file_status s) f = Some r"
  shows "\<exists>s'. handle_cancel s = Inr s'
           \<and> map fst (file_status s') = map fst (file_status s)
           \<and> map_of (file_status s') f = Some (r\<lparr>excluded := True\<rparr>)
           \<and> (\<forall>g. g \<noteq> f \<longrightarrow> map_of (file_status s') g = map_of (file_status s) g)
           \<and> excluded_files s' = excluded_files s @ [f]
           \<and> decrypted_files s' = decrypted_files s
           \<and> password_input s' = []
           \<and> processing s' = processing s"
  using handle_cancel_eq[OF assms(2) reachable_current_nonempty[OF assms(1,2)] assms(3)]
    update_keys_present[OF assms(3)]
  by (simp add: update_conv')

text \<open>The statement at a concrete session.\<close>

theorem cancel_excludes_current_witness:
  "reachable example_library example_awaiting
   \<and> get_current_file example_awaiting = Some ''b.DOCX''
   \<and> map_of (file_status example_awaiting) ''b.DOCX'' = Some example_b_entry
   \<and> (\<exists>s'. handle_cancel example_awaiting = Inr s'
          \<and> map_of (file_status s') ''b.DOCX'' = Some (example_b_entry\<lparr>excluded := True\<rparr>)
          \<and> excluded_files s' = [''b.DOCX'']
          \<and> decrypted_files s' = [''a.pdf'']
          \<and> password_input s' = [])"
proof -
  have c: "get_current_file example_awaiting = Some ''b.DOCX''"
    using example_awaiting_current[of "[]"] by (simp add: example_awaiting_def)
  have m: "map_of (file_status example_awaiting) ''b.DOCX'' = Some example_b_entry"
    using example_awaiting_entry[of "[]"] by (simp add: example_awaiting_def)
  have l: "excluded_files example_awaiting = []" "decrypted_files example_awaiting = [''a.pdf'']"
    by (simp_all add: example_awaiting_def)
  from cancel_excludes_current[OF example_awaiting_reachable c m]
  show ?thesis using example_awaiting_reachable c m l by auto
qed

text \<open>
  Claim C7, as amended.  In a state of the application with a pending file, a successful
  password attempt leaves the error message empty; a cancellation leaves the cancellation
  notice that names the cancelled file, which is not empty, so that notice is what the
  prompt of the next file shows.
\<close>

theorem error_message_after_resolution:
  assumes "reachable L s" and "get_current_file s = Some f"
    and "map_of (file_status s) f = Some r"
  shows "(password_input s \<noteq> [] \<and> password_succeeds L r (password_input s) \<longrightarrow>
            (\<exists>s'. handle_submit L s = Inr s' \<and> error_message s' = []))
         \<and> (\<exists>s'. handle_cancel s = Inr s' \<and> error_message s' = msg_cancelled f
                  \<and> error_message s' \<noteq> [])"
proof -
  note ne = reachable_current_nonempty[OF assms(1,2)]
  have "\<exists>s'. handle_submit L s = Inr s' \<and> error_message s' = []"
    if "password_input s \<noteq> []" "password_succeeds L r (password_input s)"
    using handle_submit_success[OF assms(2) ne that(1) assms(3) that(2)] by simp
  moreover have "\<exists>s'. handle_cancel s = Inr s' \<and> error_message s' = msg_cancelled f
                  \<and> error_message s' \<noteq> []"
    using handle_cancel_eq[OF assms(2) ne assms(3)] by (simp add: msg_cancelled_def)
  ultimately show ?thesis by blast
qed

text \<open>The statement at a concrete session.\<close>

theorem error_message_after_resolution_witness:
  "reachable example_library (example_awaiting\<lparr>password_input := ''x''\<rparr>)
   \<and> get_current_file (example_awaiting\<lparr>password_input := ''x''\<rparr>) = Some ''b.DOCX''
   \<and> map_of (file_status (example_awaiting\<lparr>password_input := ''x''\<rparr>)) ''b.DOCX''
        = Some example_b_entry
   \<and> password_input (example_awaiting\<lparr>password_input := ''x''\<rparr>) \<noteq> []
   \<and> password_succeeds example_library example_b_entry ''x''
   \<and> (\<exists>s'. handle_submit example_library (example_awaiting\<lparr>password_input := ''x''\<rparr>) = Inr s'
          \<and> error_message s' = [])
   \<and> (\<exists>s'. handle_cancel (example_awaiting\<lparr>password_input := ''x''\<rparr>) = Inr s'
          \<and> error_message s' = msg_cancelled ''b.DOCX'' \<and> error_message s' \<noteq> [])"
proof -
  let ?s = "example_awaiting\<lparr>password_input := ''x''\<rparr>"
  have q: "password_input ?s \<noteq> [] \<and> password_succeeds example_library example_b_entry (password_input ?s)"
    using example_password_x by simp
  from error_message_after_resolution[OF example_typed_reachable example_awaiting_current
      example_awaiting_entry, of "''x''"] q
  show ?thesis
    using example_typed_reachable example_awaiting_current example_awaiting_entry
      example_password_x by simp
qed

text \<open>
  Claim C7 as stated fails: after the Cancel button on \<open>b.DOCX\<close> the dialog opens for
  \<open>c.pdf\<close> with a non-empty error message.
\<close>

theorem cancel_leaves_notice:
  "exec example_library [Run example_batch] initial_state = Inr example_awaiting
   \<and> get_current_file example_awaiting = Some ''b.DOCX''
   \<and> handle_cancel example_awaiting = Inr example_cancelled
   \<and> get_current_file example_cancelled = Some ''c.pdf''
   \<and> error_message example_cancelled \<noteq> []"
proof -
  have "get_current_file example_awaiting = Some ''b.DOCX''" by code_simp
  moreover have "handle_cancel example_awaiting = Inr example_cancelled" by code_simp
  moreover have "get_current_file example_cancelled = Some ''c.pdf''" by code_simp
  moreover have "error_message example_cancelled \<noteq> []"
    by (simp add: example_cancelled_def msg_cancelled_def)
  ultimately show ?thesis using example_awaiting_exec by simp
qed

section \<open>The claims about the current file and the name lists\<close>

text \<open>
  Claim C2.  \<open>get_current_file\<close> is a function of the session state alone and returns
  a value only (the source function makes no assignment), so it is deterministic and
  two calls on the same state agree.  On a dictionary (keys pairwise different) it
  returns \<open>None\<close> exactly when no entry is pending (encrypted, not decrypted, not
  excluded), and it returns \<open>f\<close> exactly when \<open>f\<close> is the key of the first pending entry
  in the order in which the keys were inserted.
\<close>

theorem get_current_file_first_pending:
  assumes "distinct (map fst (file_status s))"
  shows "(get_current_file s = None \<longleftrightarrow>
            (\<forall>i < length (file_status s).
               \<not> (encrypted (snd (file_status s ! i)) \<and> \<not> decrypted (snd (file_status s ! i))
                  \<and> \<not> excluded (snd (file_status s ! i)))))
         \<and> (get_current_file s = Some f \<longleftrightarrow>
            (\<exists>i < length (file_status s).
               fst (file_status s ! i) = f
               \<and> encrypted (snd (file_status s ! i)) \<and> \<not> decrypted (snd (file_status s ! i))
               \<and> \<not> excluded (snd (file_status s ! i))
               \<and> (\<forall>j < i. \<not> (encrypted (snd (file_status s ! j))
                              \<and> \<not> decrypted (snd (file_status s ! j))
                              \<and> \<not> excluded (snd (file_status s ! j))))))"
proof -
  let ?P = "\<lambda>e::string \<times> file_entry. encrypted (snd e) \<and> \<not> decrypted (snd e) \<and> \<not> excluded (snd e)"
  let ?fs = "file_status s"
  have g: "get_current_file s = map_option fst (List.find ?P ?fs)"
    by (rule get_current_file_find[OF assms])
  have none: "(get_current_file s = None) = (\<forall>i < length ?fs. \<not> ?P (?fs ! i))"
  proof -
    have "(get_current_file s = None) = (\<forall>e \<in> set ?fs. \<not> ?P e)"
      unfolding g by (simp only: option.map_disc_iff find_None_iff) blast
    also have "\<dots> = (\<forall>i < length ?fs. \<not> ?P (?fs ! i))"
      by (rule all_set_conv_all_nth)
    finally show ?thesis .
  qed
  have some: "(get_current_file s = Some f) =
      (\<exists>i < length ?fs. fst (?fs ! i) = f \<and> ?P (?fs ! i) \<and> (\<forall>j < i. \<not> ?P (?fs ! j)))"
  proof
    assume "get_current_file s = Some f"
    then obtain e where e: "List.find ?P ?fs = Some e" "fst e = f"
      unfolding g by auto
    from e(1) obtain i where "i < length ?fs" "?P (?fs ! i)" "e = ?fs ! i" "\<forall>j<i. \<not> ?P (?fs ! j)"
      unfolding find_Some_iff by blast
    with e(2) show "\<exists>i < length ?fs. fst (?fs ! i) = f \<and> ?P (?fs ! i) \<and> (\<forall>j < i. \<not> ?P (?fs ! j))"
      by blast
  next
    assume "\<exists>i < length ?fs. fst (?fs ! i) = f \<and> ?P (?fs ! i) \<and> (\<forall>j < i. \<not> ?P (?fs ! j))"
    then obtain i where i: "i < length ?fs" "fst (?fs ! i) = f" "?P (?fs ! i)" "\<forall>j < i. \<not> ?P (?fs ! j)"
      by blast
    then have "List.find ?P ?fs = Some (?fs ! i)"
      unfolding find_Some_iff by blast
    with i(2) show "get_current_file s = Some f" unfolding g by simp
  qed
  from none some show ?thesis by simp
qed

text \<open>The statement at the concrete session, whose current file is the second key.\<close>

theorem get_current_file_first_pending_witness:
  "distinct (map fst (file_status example_awaiting))
   \<and> get_current_file example_awaiting = Some ''b.DOCX''
   \<and> (\<exists>i < length (file_status example_awaiting).
         fst (file_status example_awaiting ! i) = ''b.DOCX''
         \<and> encrypted (snd (file_status example_awaiting ! i))
         \<and> \<not> decrypted (snd (file_status example_awaiting ! i))
         \<and> \<not> excluded (snd (file_status example_awaiting ! i))
         \<and> (\<forall>j < i. \<not> (encrypted (snd (file_status example_awaiting ! j))
                        \<and> \<not> decrypted (snd (file_status example_awaiting ! j))
                        \<and> \<not> excluded (snd (file_status example_awaiting ! j)))))"
proof -
  have d: "distinct (map fst (file_status example_awaiting))"
    by (simp add: example_awaiting_def)
  have c: "get_current_file example_awaiting = Some ''b.DOCX''"
    using example_awaiting_current[of "[]"] by (simp add: example_awaiting_def)
  from get_current_file_first_pending[OF d, of "''b.DOCX''"] c d show ?thesis by blast
qed

text \<open>
  Claim C1.  Take any sequence of events in which every press of the run button uploads
  files with pairwise different names, and let \<open>s\<close> be the state it leads to from the
  fresh session.  Then the names in \<open>decrypted_files\<close> and \<open>excluded_files\<close> together
  are exactly the keys whose entry is resolved, and no name is in both lists.  Events
  that follow within the same run (no further press of the run button) only append to
  the two lists, so their union only grows.
\<close>

theorem name_lists_partition_resolved:
  assumes "list_all unique_names es" and "list_all (\<lambda>e. \<not> is_Run e) es'"
  shows "\<exists>s s'. exec L es initial_state = Inr s \<and> exec L es' s = Inr s'
           \<and> set (decrypted_files s) \<union> set (excluded_files s) = set (resolved_names s)
           \<and> set (decrypted_files s) \<inter> set (excluded_files s) = {}
           \<and> set (decrypted_files s) \<union> set (excluded_files s)
               \<subseteq> set (decrypted_files s') \<union> set (excluded_files s')
           \<and> (\<exists>ds xs. decrypted_files s' = decrypted_files s @ ds
                      \<and> excluded_files s' = excluded_files s @ xs)"
proof -
  obtain s where s: "exec L es initial_state = Inr s" using exec_total by blast
  obtain s' where s': "exec L es' s = Inr s'" using exec_total by blast
  have init: "lists_match_entries initial_state"
    by (simp add: lists_match_entries_def initial_state_def)
  have inv: "lists_match_entries s"
  proof (rule exec_invariant[where P = lists_match_entries and Q = unique_names
        and L = L and es = es and s = initial_state])
    show "lists_match_entries t'"
      if "lists_match_entries t" "unique_names e" "apply_event L e t = Inr t'" for e t t'
      using that by (rule apply_event_lists_match)
  qed (use init assms(1) s in \<open>simp_all add: list_all_iff\<close>)
  from assms(2) have "\<forall>e \<in> set es'. \<not> is_Run e" by (simp add: list_all_iff)
  from exec_lists_grow[OF this s']
  obtain ds xs where grow: "decrypted_files s' = decrypted_files s @ ds"
    "excluded_files s' = excluded_files s @ xs" by blast
  then have sub: "set (decrypted_files s) \<union> set (excluded_files s)
               \<subseteq> set (decrypted_files s') \<union> set (excluded_files s')" by auto
  from s s' lists_match_entries_partition[OF inv] sub grow show ?thesis by blast
qed

text \<open>The statement for a run that decrypts one file and then cancels the next.\<close>

theorem name_lists_partition_resolved_witness:
  "list_all unique_names [Run example_batch, Type ''x'', Submit]
   \<and> list_all (\<lambda>e. \<not> is_Run e) [Cancel, Rerun]
   \<and> (\<exists>s s'. exec example_library [Run example_batch, Type ''x'', Submit] initial_state = Inr s
          \<and> exec example_library [Cancel, Rerun] s = Inr s'
          \<and> set (decrypted_files s) \<union> set (excluded_files s) = set (resolved_names s)
          \<and> set (decrypted_files s) \<inter> set (excluded_files s) = {}
          \<and> set (decrypted_files s) \<union> set (excluded_files s)
               \<subseteq> set (decrypted_files s') \<union> set (excluded_files s')
          \<and> (\<exists>ds xs. decrypted_files s' = decrypted_files s @ ds
                      \<and> excluded_files s' = excluded_files s @ xs))"
proof -
  have u: "list_all unique_names [Run example_batch, Type ''x'', Submit]"
    by (simp add: example_batch_def)
  have n: "list_all (\<lambda>e. \<not> is_Run e) [Cancel, Rerun]" by simp
  from name_lists_partition_resolved[OF u n, of example_library] u n show ?thesis by blast
qed

section \<open>The claims about ingestion\<close>

text \<open>
  Claim C8.  Pressing the run button with any non-empty list of files returns a state:
  detection never stops the loop.  For the file at any position of the list, the entry
  written when the loop reaches it holds the bytes read and has \<open>encrypted = False\<close>
  when the extension is none of the four supported ones, and when the detection call of
  its format raises.  An entry written with \<open>encrypted = False\<close> is marked decrypted in
  the same iteration and its name is appended to \<open>decrypted_files\<close>, where it still is
  when the loop ends; and at the end every entry that is not encrypted is decrypted and
  listed.
\<close>

theorem detection_never_blocks_ingestion:
  assumes "uploaded_files = pre @ (name, fb) # post"
  shows "\<exists>s0 s1 s' r.
      ingest_loop L pre (reset_session s) = Inr s0
      \<and> ingest_file L (name, fb) s0 = Inr s1
      \<and> ingest_loop L post s1 = Inr s'
      \<and> run_button L uploaded_files s = Inr s'
      \<and> map_of (file_status s1) name = Some r \<and> file_bytes r = fb
      \<and> (extension r \<notin> set [''pdf'', ''docx'', ''xlsx'', ''pptx''] \<longrightarrow> \<not> encrypted r)
      \<and> (extension r = ''pdf'' \<and> PdfReader_is_encrypted L fb = Raised \<longrightarrow> \<not> encrypted r)
      \<and> (extension r \<in> set [''docx'', ''xlsx'', ''pptx'']
           \<and> OfficeFile_is_encrypted L fb = Raised \<longrightarrow> \<not> encrypted r)
      \<and> (\<not> encrypted r \<longrightarrow>
           decrypted r \<and> decrypted_files s1 = decrypted_files s0 @ [name]
           \<and> name \<in> set (decrypted_files s'))
      \<and> (\<forall>n e. map_of (file_status s') n = Some e \<and> \<not> encrypted e
            \<longrightarrow> decrypted e \<and> n \<in> set (decrypted_files s'))"
proof -
  obtain s0 where s0: "ingest_loop L pre (reset_session s) = Inr s0"
    using ingest_loop_total by blast
  define s1 where "s1 = s0\<lparr>file_status := AList.update name (new_entry L name fb) (file_status s0),
          decrypted_files :=
            (if detect_encrypted L name fb then decrypted_files s0
             else decrypted_files s0 @ [name])\<rparr>"
  have s1: "ingest_file L (name, fb) s0 = Inr s1"
    by (simp add: ingest_file_eq s1_def)
  obtain s' where s': "ingest_loop L post s1 = Inr s'"
    using ingest_loop_total by blast
  have whole: "ingest_loop L uploaded_files (reset_session s) = Inr s'"
    unfolding assms ingest_loop_append s0 by (simp add: s1 s')
  have run: "run_button L uploaded_files s = Inr s'"
    using whole by (simp add: run_button_def assms)
  let ?r = "new_entry L name fb"
  have r: "map_of (file_status s1) name = Some ?r"
    by (simp add: s1_def update_conv')
  have bytes: "file_bytes ?r = fb" by (simp add: new_entry_def)
  have ext: "extension ?r = extension_of name" by (simp add: new_entry_def)
  have enc: "encrypted ?r = detect_encrypted L name fb" by (simp add: new_entry_def)
  have a: "extension ?r \<notin> set [''pdf'', ''docx'', ''xlsx'', ''pptx''] \<longrightarrow> \<not> encrypted ?r"
    unfolding ext enc using detect_encrypted_unsupported by blast
  have b: "extension ?r = ''pdf'' \<and> PdfReader_is_encrypted L fb = Raised \<longrightarrow> \<not> encrypted ?r"
    unfolding ext enc using detect_encrypted_pdf_raised by blast
  have c: "extension ?r \<in> set [''docx'', ''xlsx'', ''pptx'']
           \<and> OfficeFile_is_encrypted L fb = Raised \<longrightarrow> \<not> encrypted ?r"
    unfolding ext enc using detect_encrypted_office_raised by blast
  have d: "\<not> encrypted ?r \<longrightarrow>
           decrypted ?r \<and> decrypted_files s1 = decrypted_files s0 @ [name]
           \<and> name \<in> set (decrypted_files s')"
  proof
    assume "\<not> encrypted ?r"
    then have ne: "\<not> detect_encrypted L name fb" by (simp add: enc)
    then have "decrypted ?r" by (simp add: new_entry_def)
    moreover from ne have l: "decrypted_files s1 = decrypted_files s0 @ [name]"
      by (simp add: s1_def)
    moreover from ingest_loop_decrypted_files[OF s'] l have "name \<in> set (decrypted_files s')"
      by simp
    ultimately show "decrypted ?r \<and> decrypted_files s1 = decrypted_files s0 @ [name]
           \<and> name \<in> set (decrypted_files s')" by simp
  qed
  have e: "\<forall>n e. map_of (file_status s') n = Some e \<and> \<not> encrypted e
            \<longrightarrow> decrypted e \<and> n \<in> set (decrypted_files s')"
    by (rule ingest_loop_unencrypted[OF whole]) (simp add: reset_session_def)
  from s0 s1 s' run r bytes a b c d e show ?thesis by blast
qed

text \<open>The statement for an empty PDF, on which the detection call raises.\<close>

theorem detection_never_blocks_ingestion_witness:
  "PdfReader_is_encrypted example_library [] = Raised
   \<and> (\<exists>s0 s1 s' r.
        ingest_loop example_library [] (reset_session initial_state) = Inr s0
        \<and> ingest_file example_library (''empty.pdf'', []) s0 = Inr s1
        \<and> ingest_loop example_library [(''b.DOCX'', [1, 2])] s1 = Inr s'
        \<and> run_button example_library [(''empty.pdf'', []), (''b.DOCX'', [1, 2])] initial_state
            = Inr s'
        \<and> map_of (file_status s1) ''empty.pdf'' = Some r \<and> file_bytes r = []
        \<and> extension r = ''pdf''
        \<and> \<not> encrypted r \<and> decrypted r
        \<and> decrypted_files s1 = decrypted_files s0 @ [''empty.pdf'']
        \<and> ''empty.pdf'' \<in> set (decrypted_files s'))"
proof -
  have raised: "PdfReader_is_encrypted example_library [] = Raised"
    by (simp add: example_library_def)
  have split: "[(''empty.pdf'', []), (''b.DOCX'', [1, 2])]
                 = [] @ (''empty.pdf'', []) # [(''b.DOCX'', [1, 2 :: 8 word])]"
    by simp
  from detection_never_blocks_ingestion[OF split, of example_library initial_state]
  obtain s0 s1 s' r where
    s0: "ingest_loop example_library [] (reset_session initial_state) = Inr s0"
    and s1: "ingest_file example_library (''empty.pdf'', []) s0 = Inr s1"
    and s': "ingest_loop example_library [(''b.DOCX'', [1, 2])] s1 = Inr s'"
    and run: "run_button example_library [(''empty.pdf'', []), (''b.DOCX'', [1, 2])] initial_state
            = Inr s'"
    and r: "map_of (file_status s1) ''empty.pdf'' = Some r" "file_bytes r = []"
    and pdf: "extension r = ''pdf'' \<and> PdfReader_is_encrypted example_library [] = Raised
               \<longrightarrow> \<not> encrypted r"
    and dec: "\<not> encrypted r \<longrightarrow>
           decrypted r \<and> decrypted_files s1 = decrypted_files s0 @ [''empty.pdf'']
           \<and> ''empty.pdf'' \<in> set (decrypted_files s')"
    by blast
  from s1 have "map_of (file_status s1) ''empty.pdf''
                  = Some (new_entry example_library ''empty.pdf'' [])"
    by (auto simp: ingest_file_eq update_conv')
  with r(1) have "r = new_entry example_library ''empty.pdf'' []" by simp
  then have ext: "extension r = ''pdf''"
    by (simp add: new_entry_def example_empty_pdf_extension)
  with pdf raised have "\<not> encrypted r" by simp
  with dec s0 s1 s' run r ext raised show ?thesis by blast
qed

text \<open>
  Claim C10.  When the uploaded list holds the same name twice (the second being its
  last occurrence), the resulting dictionary has exactly one entry for the name; that
  entry is the one the last occurrence alone would produce, with the bytes of the last
  occurrence.  When both occurrences are classified as not encrypted, the name stands at
  least twice in \<open>decrypted_files\<close> (exactly twice when the name occurs nowhere else), so
  the list has duplicates.
\<close>

theorem duplicate_name_last_wins:
  assumes "uploaded_files = pre @ (name, fb1) # mid @ (name, fb2) # post"
    and "name \<notin> fst ` set post"
  shows "\<exists>s' s2 r.
      run_button L uploaded_files s = Inr s'
      \<and> run_button L [(name, fb2)] s = Inr s2
      \<and> map_of (file_status s') name = Some r
      \<and> map_of (file_status s2) name = Some r
      \<and> file_bytes r = fb2
      \<and> length (filter (\<lambda>e. fst e = name) (file_status s')) = 1
      \<and> (\<forall>s1 r1. run_button L [(name, fb1)] s = Inr s1
                  \<and> map_of (file_status s1) name = Some r1
                  \<and> \<not> encrypted r1 \<and> \<not> encrypted r
            \<longrightarrow> 2 \<le> count_list (decrypted_files s') name
                \<and> \<not> distinct (decrypted_files s')
                \<and> (name \<notin> fst ` set (pre @ mid) \<longrightarrow> count_list (decrypted_files s') name = 2))"
proof -
  let ?nd = "\<lambda>u. \<not> detect_encrypted L (fst u) (snd u)"
  let ?r = "new_entry L name fb2"
  obtain sa where sa: "ingest_loop L (pre @ (name, fb1) # mid) (reset_session s) = Inr sa"
    using ingest_loop_total by blast
  obtain s' where s': "ingest_loop L ((name, fb2) # post) sa = Inr s'"
    using ingest_loop_total by blast
  have whole: "ingest_loop L uploaded_files (reset_session s) = Inr s'"
  proof -
    have "ingest_loop L ((pre @ (name, fb1) # mid) @ (name, fb2) # post) (reset_session s) =
            (case ingest_loop L (pre @ (name, fb1) # mid) (reset_session s) of
               Inl e \<Rightarrow> Inl e
             | Inr s1 \<Rightarrow> ingest_loop L ((name, fb2) # post) s1)"
      by (rule ingest_loop_append)
    also have "\<dots> = Inr s'"
      by (simp only: sa sum.case s')
    finally show ?thesis by (simp add: assms(1))
  qed
  have run: "run_button L uploaded_files s = Inr s'"
    using whole by (simp add: run_button_def assms(1))
  obtain s2 where s2: "run_button L [(name, fb2)] s = Inr s2"
    using run_button_total by blast
  have r2: "map_of (file_status s2) name = Some ?r"
    by (rule run_button_single[OF s2])
  have r: "map_of (file_status s') name = Some ?r"
    using ingest_loop_lookup_other[OF s'[unfolded ingest_loop_Cons] assms(2)]
    by (simp add: update_conv')
  have bytes: "file_bytes ?r = fb2" by (simp add: new_entry_def)
  have "distinct (map fst (file_status s'))"
    by (rule ingest_loop_distinct_keys[OF whole]) (simp add: reset_session_def)
  moreover from r have "name \<in> fst ` set (file_status s')"
    by (metis map_of_eq_None_iff option.distinct(1))
  ultimately have one: "length (filter (\<lambda>e. fst e = name) (file_status s')) = 1"
    by (rule one_entry_per_key)
  have dec: "decrypted_files s' = map fst (filter ?nd uploaded_files)"
    using ingest_loop_decrypted_files[OF whole] by (simp add: reset_session_def)
  have cnt: "count_list (decrypted_files s') name =
      length (filter (\<lambda>u. fst u = name \<and> ?nd u) uploaded_files)"
    unfolding dec by (rule count_list_map_filter)
  have twice: "2 \<le> count_list (decrypted_files s') name
                \<and> \<not> distinct (decrypted_files s')
                \<and> (name \<notin> fst ` set (pre @ mid) \<longrightarrow> count_list (decrypted_files s') name = 2)"
    if s1: "run_button L [(name, fb1)] s = Inr s1" "map_of (file_status s1) name = Some r1"
      and ne: "\<not> encrypted r1" "\<not> encrypted ?r" for s1 r1
  proof -
    from run_button_single[OF s1(1)] s1(2) have "r1 = new_entry L name fb1" by simp
    with ne have nd: "\<not> detect_encrypted L name fb1" "\<not> detect_encrypted L name fb2"
      by (simp_all add: new_entry_def)
    then have two: "2 \<le> count_list (decrypted_files s') name"
      unfolding cnt assms(1) by simp
    have "\<not> distinct (decrypted_files s')"
    proof
      assume "distinct (decrypted_files s')"
      then have "count_list (decrypted_files s') name \<le> 1"
        by (rule distinct_count_le_1)
      with two show False by simp
    qed
    moreover have "count_list (decrypted_files s') name = 2" if "name \<notin> fst ` set (pre @ mid)"
    proof -
      from that have "name \<notin> fst ` set pre" "name \<notin> fst ` set mid" by auto
      then show ?thesis
        unfolding cnt assms(1) using nd assms(2) by (simp add: filter_absent_name)
    qed
    ultimately show ?thesis using two by blast
  qed
  from run s2 r r2 bytes one twice show ?thesis by blast
qed

text \<open>The statement for two unencrypted uploads of the same name.\<close>

theorem duplicate_name_last_wins_witness:
  "''a.pdf'' \<notin> fst ` set ([] :: (string \<times> bytes) list)
   \<and> (\<exists>s' s2 r.
        run_button example_library [(''a.pdf'', [0]), (''a.pdf'', [0, 7])] initial_state = Inr s'
        \<and> run_button example_library [(''a.pdf'', [0, 7])] initial_state = Inr s2
        \<and> map_of (file_status s') ''a.pdf'' = Some r
        \<and> map_of (file_status s2) ''a.pdf'' = Some r
        \<and> file_bytes r = [0, 7]
        \<and> length (filter (\<lambda>e. fst e = ''a.pdf'') (file_status s')) = 1
        \<and> \<not> encrypted r
        \<and> count_list (decrypted_files s') ''a.pdf'' = 2
        \<and> \<not> distinct (decrypted_files s'))"
proof -
  have split: "[(''a.pdf'', [0]), (''a.pdf'', [0, 7])]
                 = [] @ (''a.pdf'', [0]) # [] @ (''a.pdf'', [0, 7 :: 8 word]) # []"
    by simp
  have post: "''a.pdf'' \<notin> fst ` set ([] :: (string \<times> bytes) list)" by simp
  from duplicate_name_last_wins[OF split post, of example_library initial_state]
  obtain s' s2 r where
    run: "run_button example_library [(''a.pdf'', [0]), (''a.pdf'', [0, 7])] initial_state = Inr s'"
    and s2: "run_button example_library [(''a.pdf'', [0, 7])] initial_state = Inr s2"
    and r: "map_of (file_status s') ''a.pdf'' = Some r" "map_of (file_status s2) ''a.pdf'' = Some r"
      "file_bytes r = [0, 7]"
    and one: "length (filter (\<lambda>e. fst e = ''a.pdf'') (file_status s')) = 1"
    and twice: "\<forall>s1 r1. run_button example_library [(''a.pdf'', [0])] initial_state = Inr s1
                  \<and> map_of (file_status s1) ''a.pdf'' = Some r1
                  \<and> \<not> encrypted r1 \<and> \<not> encrypted r
            \<longrightarrow> 2 \<le> count_list (decrypted_files s') ''a.pdf''
                \<and> \<not> distinct (decrypted_files s')
                \<and> (''a.pdf'' \<notin> fst ` set ([] @ [] :: (string \<times> bytes) list)
                     \<longrightarrow> count_list (decrypted_files s') ''a.pdf'' = 2)"
    by blast
  obtain s1 where s1: "run_button example_library [(''a.pdf'', [0])] initial_state = Inr s1"
    using run_button_total by blast
  have e1: "\<not> encrypted (new_entry example_library ''a.pdf'' [0])" by code_simp
  have e2: "\<not> encrypted (new_entry example_library ''a.pdf'' [0, 7])" by code_simp
  from run_button_single[OF s2] r(2) have "r = new_entry example_library ''a.pdf'' [0, 7]"
    by simp
  with e2 have ne: "\<not> encrypted r" by simp
  from twice s1 run_button_single[OF s1] e1 ne
  have "count_list (decrypted_files s') ''a.pdf'' = 2 \<and> \<not> distinct (decrypted_files s')"
    by simp
  with run s2 r one ne post show ?thesis by blast
qed

end
